theory Spec2Isabelle
  imports Complex_Main "HOL-Library.AList"
begin

section \<open>Data model\<close>

text \<open>
  The program is \<^verbatim>\<open>pagerank.py\<close>. A corpus is a Python dictionary from page names to
  sets of page names. A dictionary is modelled as an association list in insertion order
  (the order in which \<^verbatim>\<open>corpus.keys()\<close> iterates), a set as the list of its elements in the
  order in which the program happens to iterate over it. Python floats are modelled as
  exact real numbers, Python integers as \<open>int\<close>.
\<close>

type_synonym page = string
type_synonym corpus = "(page \<times> page list) list"
type_synonym distribution = "(page \<times> real) list"

text \<open>The exceptions the three functions and the library calls they make can raise.\<close>

datatype error = KeyError | ZeroDivisionError | IndexError | ValueError

definition keys :: "('k \<times> 'v) list \<Rightarrow> 'k list" where
  "keys d = map fst d"

definition dict_values :: "('k \<times> 'v) list \<Rightarrow> 'v list" where
  "dict_values d = map snd d"

text \<open>Float division \<^verbatim>\<open>a / b\<close>: Python raises where HOL would return 0.\<close>

definition py_div :: "real \<Rightarrow> real \<Rightarrow> error + real" where
  "py_div a b = (if b = 0 then Inl ZeroDivisionError else Inr (a / b))"

text \<open>
  An association list represents a dictionary of sets when no key and no element of a
  value occurs twice.
\<close>

definition dict_repr :: "corpus \<Rightarrow> bool" where
  "dict_repr corpus \<longleftrightarrow>
     distinct (keys corpus) \<and> (\<forall>(p, links) \<in> set corpus. distinct links)"

text \<open>
  The invariant of the graph: every link target is itself a page of the corpus, and no
  page links to itself (\<^verbatim>\<open>crawl\<close> establishes both).
\<close>

definition valid_graph :: "corpus \<Rightarrow> bool" where
  "valid_graph corpus \<longleftrightarrow>
     dict_repr corpus \<and>
     (\<forall>(p, links) \<in> set corpus. set links \<subseteq> set (keys corpus) \<and> p \<notin> set links)"

section \<open>The transition model\<close>

text \<open>
  \<^verbatim>\<open>for current_page in corpus.keys():
      probability_distribution[current_page] = (1-damping_factor)/all_pages\<close>
\<close>

fun base_loop :: "page list \<Rightarrow> real \<Rightarrow> nat \<Rightarrow> distribution \<Rightarrow> error + distribution" where
  "base_loop [] damping_factor all_pages pd = Inr pd"
| "base_loop (current_page # rest) damping_factor all_pages pd =
     (case py_div (1 - damping_factor) (real all_pages) of
        Inl e \<Rightarrow> Inl e
      | Inr v \<Rightarrow> base_loop rest damping_factor all_pages (AList.update current_page v pd))"

text \<open>
  \<^verbatim>\<open>for current_page in corpus[page]:
      probability_distribution[current_page] += damping_factor/linked_pages\<close>

  The augmented assignment reads the entry first, so a link target that is not a key
  raises \<^verbatim>\<open>KeyError\<close>.
\<close>

fun link_loop :: "page list \<Rightarrow> real \<Rightarrow> nat \<Rightarrow> distribution \<Rightarrow> error + distribution" where
  "link_loop [] damping_factor linked_pages pd = Inr pd"
| "link_loop (current_page # rest) damping_factor linked_pages pd =
     (case map_of pd current_page of
        None \<Rightarrow> Inl KeyError
      | Some old \<Rightarrow>
          (case py_div damping_factor (real linked_pages) of
             Inl e \<Rightarrow> Inl e
           | Inr q \<Rightarrow>
               link_loop rest damping_factor linked_pages
                 (AList.update current_page (old + q) pd)))"

definition transition_model :: "corpus \<Rightarrow> page \<Rightarrow> real \<Rightarrow> error + distribution" where
  "transition_model corpus page damping_factor =
     (let all_pages = length (keys corpus);
          linked_pages = (case map_of corpus page of
                            Some links \<Rightarrow> length links
                          | None \<Rightarrow> 0)
      in case base_loop (keys corpus) damping_factor all_pages [] of
           Inl e \<Rightarrow> Inl e
         | Inr pd \<Rightarrow>
             if linked_pages \<noteq> 0
             then (case map_of corpus page of
                     None \<Rightarrow> Inl KeyError
                   | Some links \<Rightarrow> link_loop links damping_factor linked_pages pd)
             else Inr pd)"

section \<open>The random source\<close>

text \<open>
  The two library calls of the sampler, with the outcome of the random generator as an
  argument. \<^verbatim>\<open>random.choice(seq)\<close> raises \<^verbatim>\<open>IndexError\<close> on an empty sequence and otherwise
  returns \<^verbatim>\<open>seq[k]\<close> for an index \<open>k\<close> below \<^verbatim>\<open>len(seq)\<close> drawn uniformly; \<open>r\<close> is the number
  drawn, reduced into that range.
\<close>

definition random_choice :: "nat \<Rightarrow> 'a list \<Rightarrow> error + 'a" where
  "random_choice r seq =
     (if seq = [] then Inl IndexError else Inr (seq ! (r mod length seq)))"

text \<open>\<^verbatim>\<open>itertools.accumulate(weights)\<close>: the running sums.\<close>

fun accumulate_from :: "real \<Rightarrow> real list \<Rightarrow> real list" where
  "accumulate_from s [] = []"
| "accumulate_from s (w # ws) = (s + w) # accumulate_from (s + w) ws"

definition accumulate :: "real list \<Rightarrow> real list" where
  "accumulate ws = accumulate_from 0 ws"

text \<open>
  \<^verbatim>\<open>bisect.bisect_right(a, x, lo, hi)\<close>:
  \<^verbatim>\<open>while lo < hi:
      mid = (lo + hi) // 2
      if x < a[mid]: hi = mid
      else: lo = mid + 1
  return lo\<close>
\<close>

function bisect_right :: "real list \<Rightarrow> real \<Rightarrow> nat \<Rightarrow> nat \<Rightarrow> nat" where
  "bisect_right a x lo hi =
     (if lo < hi
      then (let mid = (lo + hi) div 2
            in if x < a ! mid then bisect_right a x lo mid
               else bisect_right a x (mid + 1) hi)
      else lo)"
  by pat_completeness auto
termination
  by (relation "measure (\<lambda>(a, x, lo, hi). hi - lo)") auto

declare bisect_right.simps [simp del]

text \<open>
  \<^verbatim>\<open>random.choices(population, weights)[0]\<close>, where \<open>u\<close> is the value in \<open>[0, 1)\<close> that
  \<^verbatim>\<open>random()\<close> returns:
  \<^verbatim>\<open>n = len(population)
  cum_weights = list(accumulate(weights))
  if len(cum_weights) != n: raise ValueError
  total = cum_weights[-1] + 0.0
  if total <= 0.0: raise ValueError
  hi = n - 1
  return [population[bisect(cum_weights, random() * total, 0, hi)]]\<close>
  The search reads \<open>cum_weights\<close> below \<open>hi\<close> only, which is in range.
\<close>

definition random_choices :: "real \<Rightarrow> 'a list \<Rightarrow> real list \<Rightarrow> error + 'a" where
  "random_choices u population weights =
     (let n = length population;
          cum_weights = accumulate weights
      in if length cum_weights \<noteq> n then Inl ValueError
         else if cum_weights = [] then Inl IndexError
         else (let total = last cum_weights
               in if total \<le> 0 then Inl ValueError
                  else Inr (population ! bisect_right cum_weights (u * total) 0 (n - 1))))"

section \<open>The sampling estimator\<close>

text \<open>
  \<^verbatim>\<open>for page in corpus.keys():
      pagerank[page] = 0\<close>
\<close>

fun zero_loop :: "page list \<Rightarrow> distribution \<Rightarrow> distribution" where
  "zero_loop [] pagerank = pagerank"
| "zero_loop (page # rest) pagerank = zero_loop rest (AList.update page 0 pagerank)"

text \<open>
  \<^verbatim>\<open>for page in pagerank.keys():
      pagerank[page] += current_distribution[page] / n\<close>
\<close>

fun credit_loop :: "page list \<Rightarrow> distribution \<Rightarrow> int \<Rightarrow> distribution \<Rightarrow> error + distribution" where
  "credit_loop [] current_distribution n pagerank = Inr pagerank"
| "credit_loop (page # rest) current_distribution n pagerank =
     (case map_of pagerank page of
        None \<Rightarrow> Inl KeyError
      | Some old \<Rightarrow>
          (case map_of current_distribution page of
             None \<Rightarrow> Inl KeyError
           | Some pr \<Rightarrow>
               (case py_div pr (real_of_int n) of
                  Inl e \<Rightarrow> Inl e
                | Inr q \<Rightarrow>
                    credit_loop rest current_distribution n
                      (AList.update page (old + q) pagerank))))"

text \<open>
  The loop \<^verbatim>\<open>for i in range(n-1)\<close>, with \<open>i\<close> the loop variable and \<open>k\<close> the number of
  iterations left; \<open>us i\<close> is what \<^verbatim>\<open>random()\<close> returns in iteration \<open>i\<close>.
\<close>

fun sample_loop ::
  "nat \<Rightarrow> corpus \<Rightarrow> real \<Rightarrow> int \<Rightarrow> (nat \<Rightarrow> real) \<Rightarrow> nat \<Rightarrow> page \<Rightarrow> distribution
     \<Rightarrow> error + distribution" where
  "sample_loop 0 corpus damping_factor n us i current_sample pagerank = Inr pagerank"
| "sample_loop (Suc k) corpus damping_factor n us i current_sample pagerank =
     (case transition_model corpus current_sample damping_factor of
        Inl e \<Rightarrow> Inl e
      | Inr current_distribution \<Rightarrow>
          (case credit_loop (keys pagerank) current_distribution n pagerank of
             Inl e \<Rightarrow> Inl e
           | Inr pagerank' \<Rightarrow>
               (case random_choices (us i) (keys current_distribution)
                       (dict_values current_distribution) of
                  Inl e \<Rightarrow> Inl e
                | Inr next_sample \<Rightarrow>
                    sample_loop k corpus damping_factor n us (Suc i) next_sample pagerank')))"

text \<open>
  \<open>r0\<close> is the index that \<^verbatim>\<open>random.choice\<close> draws for the first sample, \<open>us\<close> the values
  that \<^verbatim>\<open>random()\<close> returns inside \<^verbatim>\<open>random.choices\<close>.
\<close>

definition sample_pagerank ::
  "corpus \<Rightarrow> real \<Rightarrow> int \<Rightarrow> nat \<Rightarrow> (nat \<Rightarrow> real) \<Rightarrow> error + distribution" where
  "sample_pagerank corpus damping_factor n r0 us =
     (let pagerank = zero_loop (keys corpus) []
      in case random_choice r0 (keys corpus) of
           Inl e \<Rightarrow> Inl e
         | Inr current_sample \<Rightarrow>
             sample_loop (nat (n - 1)) corpus damping_factor n us 0 current_sample pagerank)"

section \<open>The iterative estimator\<close>

text \<open>
  \<^verbatim>\<open>for page in corpus.keys():
      pagerank[page] = 1/N\<close>
\<close>

fun init_loop :: "page list \<Rightarrow> nat \<Rightarrow> distribution \<Rightarrow> error + distribution" where
  "init_loop [] N pagerank = Inr pagerank"
| "init_loop (page # rest) N pagerank =
     (case py_div 1 (real N) of
        Inl e \<Rightarrow> Inl e
      | Inr v \<Rightarrow> init_loop rest N (AList.update page v pagerank))"

text \<open>
  \<^verbatim>\<open>for i in corpus.keys():
      if page in corpus[i]:
          new_pagerank[page] += damping_factor * pagerank[i] / len(corpus[i])\<close>
\<close>

fun inner_loop ::
  "page list \<Rightarrow> corpus \<Rightarrow> real \<Rightarrow> distribution \<Rightarrow> page \<Rightarrow> distribution
     \<Rightarrow> error + distribution" where
  "inner_loop [] corpus damping_factor pagerank page new_pagerank = Inr new_pagerank"
| "inner_loop (i # rest) corpus damping_factor pagerank page new_pagerank =
     (case map_of corpus i of
        None \<Rightarrow> Inl KeyError
      | Some links \<Rightarrow>
          if page \<in> set links
          then (case map_of new_pagerank page of
                  None \<Rightarrow> Inl KeyError
                | Some old \<Rightarrow>
                    (case map_of pagerank i of
                       None \<Rightarrow> Inl KeyError
                     | Some r \<Rightarrow>
                         (case py_div (damping_factor * r) (real (length links)) of
                            Inl e \<Rightarrow> Inl e
                          | Inr q \<Rightarrow>
                              inner_loop rest corpus damping_factor pagerank page
                                (AList.update page (old + q) new_pagerank))))
          else inner_loop rest corpus damping_factor pagerank page new_pagerank)"

text \<open>
  \<^verbatim>\<open>for page in corpus.keys():
      new_pagerank[page] = (1-damping_factor)/N
      for i in corpus.keys(): ...\<close>
\<close>

fun rank_loop ::
  "page list \<Rightarrow> corpus \<Rightarrow> real \<Rightarrow> nat \<Rightarrow> distribution \<Rightarrow> distribution
     \<Rightarrow> error + distribution" where
  "rank_loop [] corpus damping_factor N pagerank new_pagerank = Inr new_pagerank"
| "rank_loop (page # rest) corpus damping_factor N pagerank new_pagerank =
     (case py_div (1 - damping_factor) (real N) of
        Inl e \<Rightarrow> Inl e
      | Inr v \<Rightarrow>
          (case inner_loop (keys corpus) corpus damping_factor pagerank page
                  (AList.update page v new_pagerank) of
             Inl e \<Rightarrow> Inl e
           | Inr new_pagerank' \<Rightarrow>
               rank_loop rest corpus damping_factor N pagerank new_pagerank'))"

text \<open>
  \<^verbatim>\<open>converged = True
  for page in corpus.keys():
      if abs(new_pagerank[page] - pagerank[page]) >= 0.001:
          converged = False
          break\<close>
\<close>

fun check_loop :: "page list \<Rightarrow> distribution \<Rightarrow> distribution \<Rightarrow> error + bool" where
  "check_loop [] new_pagerank pagerank = Inr True"
| "check_loop (page # rest) new_pagerank pagerank =
     (case map_of new_pagerank page of
        None \<Rightarrow> Inl KeyError
      | Some a \<Rightarrow>
          (case map_of pagerank page of
             None \<Rightarrow> Inl KeyError
           | Some b \<Rightarrow>
               if \<bar>a - b\<bar> \<ge> 1 / 1000 then Inr False
               else check_loop rest new_pagerank pagerank))"

text \<open>
  The loop \<^verbatim>\<open>while True\<close>, which has no bound: \<open>None\<close> is the run that never leaves it.
\<close>

partial_function (option) while_loop ::
  "corpus \<Rightarrow> real \<Rightarrow> nat \<Rightarrow> distribution \<Rightarrow> (error + distribution) option" where
  "while_loop corpus damping_factor N pagerank =
     (case rank_loop (keys corpus) corpus damping_factor N pagerank [] of
        Inl e \<Rightarrow> Some (Inl e)
      | Inr new_pagerank \<Rightarrow>
          (case check_loop (keys corpus) new_pagerank pagerank of
             Inl e \<Rightarrow> Some (Inl e)
           | Inr converged \<Rightarrow>
               if converged then Some (Inr pagerank)
               else while_loop corpus damping_factor N new_pagerank))"

definition iterate_pagerank :: "corpus \<Rightarrow> real \<Rightarrow> (error + distribution) option" where
  "iterate_pagerank corpus damping_factor =
     (let N = length (keys corpus)
      in case init_loop (keys corpus) N [] of
           Inl e \<Rightarrow> Some (Inl e)
         | Inr pagerank \<Rightarrow> while_loop corpus damping_factor N pagerank)"

section \<open>Example graphs\<close>

definition dangling_graph :: corpus where
  "dangling_graph = [(''A'', [''B'']), (''B'', [])]"

definition two_cycle :: corpus where
  "two_cycle = [(''A'', [''B'']), (''B'', [''A''])]"

definition single_page :: corpus where
  "single_page = [(''A'', [])]"

definition three_pages :: corpus where
  "three_pages = [(''A'', [''B'']), (''B'', [''A'']), (''C'', [''A''])]"

text \<open>A random source for the examples: \<^verbatim>\<open>random()\<close> returns 0.5 every time.\<close>

definition half_draws :: "nat \<Rightarrow> real" where
  "half_draws i = 1 / 2"

section \<open>Dictionaries as association lists\<close>

text \<open>The dictionary with the keys \<open>ks\<close>, in this order, and the value \<open>f k\<close> at \<open>k\<close>.\<close>

definition tabulate :: "('k \<Rightarrow> 'v) \<Rightarrow> 'k list \<Rightarrow> ('k \<times> 'v) list" where
  "tabulate f ks = map (\<lambda>k. (k, f k)) ks"

text \<open>The entry of a rank vector or distribution at a page (0 where it has none).\<close>

definition entry :: "distribution \<Rightarrow> page \<Rightarrow> real" where
  "entry pd p = (case map_of pd p of Some v \<Rightarrow> v | None \<Rightarrow> 0)"

section \<open>Closed forms\<close>

text \<open>
  The probability that the transition model for \<open>page\<close> gives to the page \<open>q\<close> of the
  corpus: the base term, and the link term where \<open>page\<close> links to \<open>q\<close>.
\<close>

definition probability :: "corpus \<Rightarrow> real \<Rightarrow> page \<Rightarrow> page \<Rightarrow> real" where
  "probability corpus d page q =
     (1 - d) / real (length corpus) +
     (case map_of corpus page of
        Some links \<Rightarrow> if q \<in> set links then d / real (length links) else 0
      | None \<Rightarrow> 0)"

definition no_dangling :: "corpus \<Rightarrow> bool" where
  "no_dangling corpus \<longleftrightarrow> (\<forall>(p, links) \<in> set corpus. links \<noteq> [])"

text \<open>
  The recurrence of the iterative estimator as the specification writes it:
  \<open>new_rank[p] = (1 - damping) / N + damping * \<Sum> rank[i] / outdegree(i)\<close>, the sum over
  the pages \<open>i\<close> that link to \<open>p\<close>; and its convergence test.
\<close>

definition outdegree :: "corpus \<Rightarrow> page \<Rightarrow> nat" where
  "outdegree corpus i = (case map_of corpus i of Some links \<Rightarrow> length links | None \<Rightarrow> 0)"

definition links_to :: "corpus \<Rightarrow> page \<Rightarrow> page \<Rightarrow> bool" where
  "links_to corpus i p \<longleftrightarrow> (case map_of corpus i of Some links \<Rightarrow> p \<in> set links | None \<Rightarrow> False)"

definition spec_new_rank :: "corpus \<Rightarrow> real \<Rightarrow> distribution \<Rightarrow> page \<Rightarrow> real" where
  "spec_new_rank corpus d rank p =
     (1 - d) / real (length corpus) +
     d * (\<Sum>i \<leftarrow> filter (\<lambda>i. links_to corpus i p) (keys corpus).
            entry rank i / real (outdegree corpus i))"

definition spec_converged :: "corpus \<Rightarrow> distribution \<Rightarrow> distribution \<Rightarrow> bool" where
  "spec_converged corpus new_rank rank \<longleftrightarrow>
     (\<forall>p \<in> set (keys corpus). \<bar>entry new_rank p - entry rank p\<bar> < 1 / 1000)"

text \<open>
  What one pass of the inner loop adds to \<^verbatim>\<open>new_pagerank[page]\<close> for the page \<open>i\<close>, and
  the value of \<^verbatim>\<open>new_pagerank[page]\<close> after the loop over all pages.
\<close>

definition contribution :: "corpus \<Rightarrow> real \<Rightarrow> distribution \<Rightarrow> page \<Rightarrow> page \<Rightarrow> real" where
  "contribution corpus d pagerank page i =
     (if links_to corpus i page then d * entry pagerank i / real (outdegree corpus i) else 0)"

definition new_rank :: "corpus \<Rightarrow> real \<Rightarrow> distribution \<Rightarrow> page \<Rightarrow> real" where
  "new_rank corpus d pagerank page =
     (1 - d) / real (length corpus) + (\<Sum>i \<leftarrow> keys corpus. contribution corpus d pagerank page i)"

text \<open>
  The rank vector after \<open>k\<close> further passes of the body of the \<^verbatim>\<open>while\<close> loop that
  assign \<^verbatim>\<open>pagerank = new_pagerank\<close>.
\<close>

fun iterates :: "nat \<Rightarrow> corpus \<Rightarrow> real \<Rightarrow> nat \<Rightarrow> distribution \<Rightarrow> error + distribution" where
  "iterates 0 corpus d N pagerank = Inr pagerank"
| "iterates (Suc k) corpus d N pagerank =
     (case rank_loop (keys corpus) corpus d N pagerank [] of
        Inl e \<Rightarrow> Inl e
      | Inr new_pagerank \<Rightarrow> iterates k corpus d N new_pagerank)"

text \<open>
  The sampler in the words of the specification. The current page of step \<open>i\<close>: the
  first one is chosen among all pages, each further one is drawn from the distribution
  of the transition model for the page before it.
\<close>

fun spec_walk :: "corpus \<Rightarrow> real \<Rightarrow> nat \<Rightarrow> (nat \<Rightarrow> real) \<Rightarrow> nat \<Rightarrow> error + page" where
  "spec_walk corpus d r0 us 0 = random_choice r0 (keys corpus)"
| "spec_walk corpus d r0 us (Suc i) =
     (case spec_walk corpus d r0 us i of
        Inl e \<Rightarrow> Inl e
      | Inr cur \<Rightarrow>
          (case transition_model corpus cur d of
             Inl e \<Rightarrow> Inl e
           | Inr pd \<Rightarrow> random_choices (us i) (keys pd) (dict_values pd)))"

text \<open>The probability of the page \<open>p\<close> under the distribution of step \<open>i\<close>.\<close>

definition spec_step_probability ::
  "corpus \<Rightarrow> real \<Rightarrow> nat \<Rightarrow> (nat \<Rightarrow> real) \<Rightarrow> nat \<Rightarrow> page \<Rightarrow> real" where
  "spec_step_probability corpus d r0 us i p =
     (case spec_walk corpus d r0 us i of
        Inl e \<Rightarrow> 0
      | Inr cur \<Rightarrow>
          (case transition_model corpus cur d of
             Inl e \<Rightarrow> 0
           | Inr pd \<Rightarrow> entry pd p))"

text \<open>
  The accumulator of the page \<open>p\<close> after \<open>sample_count - 1\<close> steps, each adding the
  probability of \<open>p\<close> times \<open>1 / sample_count\<close>.
\<close>

definition spec_accumulator ::
  "corpus \<Rightarrow> real \<Rightarrow> int \<Rightarrow> nat \<Rightarrow> (nat \<Rightarrow> real) \<Rightarrow> page \<Rightarrow> real" where
  "spec_accumulator corpus d n r0 us p =
     (\<Sum>i < nat (n - 1). spec_step_probability corpus d r0 us i p * (1 / real_of_int n))"

section \<open>Lemmas on association lists\<close>

lemma keys_tabulate [simp]: "keys (tabulate f ks) = ks"
  by (simp add: keys_def tabulate_def comp_def)

lemma tabulate_Nil [simp]: "tabulate f [] = []"
  by (simp add: tabulate_def)

lemma tabulate_Cons [simp]: "tabulate f (k # ks) = (k, f k) # tabulate f ks"
  by (simp add: tabulate_def)

lemma map_of_tabulate: "map_of (tabulate f ks) k = (if k \<in> set ks then Some (f k) else None)"
  by (induction ks) auto

lemma tabulate_cong: "(\<And>k. k \<in> set ks \<Longrightarrow> f k = g k) \<Longrightarrow> tabulate f ks = tabulate g ks"
  by (simp add: tabulate_def)

lemma update_fresh: "k \<notin> fst ` set al \<Longrightarrow> AList.update k v al = al @ [(k, v)]"
  by (induction al) auto

lemma update_tabulate:
  "distinct ks \<Longrightarrow> k \<in> set ks \<Longrightarrow>
     AList.update k v (tabulate f ks) = tabulate (\<lambda>q. if q = k then v else f q) ks"
proof (induction ks)
  case Nil
  then show ?case by simp
next
  case (Cons a ks)
  show ?case
  proof (cases "a = k")
    case True
    with Cons.prems have "k \<notin> set ks" by simp
    then have "tabulate (\<lambda>q. if q = k then v else f q) ks = tabulate f ks"
      by (intro tabulate_cong) auto
    with True show ?thesis by simp
  next
    case False
    with Cons show ?thesis by simp
  qed
qed

lemma sum_list_divide: "(\<Sum>q\<leftarrow>ks. f q / c) = (\<Sum>q\<leftarrow>ks. f q) / (c :: real)"
  by (induction ks) (simp_all add: add_divide_distrib)

lemma sum_list_sum_swap:
  "(\<Sum>q\<leftarrow>ks. \<Sum>i\<in>A. f i q) = (\<Sum>i\<in>A. \<Sum>q\<leftarrow>ks. (f i q :: real))"
  by (induction ks) (simp_all add: sum.distrib)

section \<open>What the transition model computes\<close>

lemma base_loop_tabulate:
  assumes "all_pages \<noteq> 0" "distinct ks" "set ks \<inter> fst ` set pd = {}"
  shows "base_loop ks d all_pages pd = Inr (pd @ tabulate (\<lambda>_. (1 - d) / real all_pages) ks)"
  using assms
proof (induction ks arbitrary: pd)
  case Nil
  then show ?case by simp
next
  case (Cons k ks)
  from Cons.prems have fresh: "k \<notin> fst ` set pd" by auto
  have disj: "set ks \<inter> fst ` set (pd @ [(k, (1 - d) / real all_pages)]) = {}"
    using Cons.prems by auto
  show ?case
    using Cons.prems Cons.IH [OF _ _ disj]
    by (simp add: py_div_def update_fresh [OF fresh])
qed

lemma link_loop_tabulate:
  assumes "linked_pages \<noteq> 0" "distinct ks" "distinct links" "set links \<subseteq> set ks"
  shows "link_loop links d linked_pages (tabulate f ks) =
           Inr (tabulate (\<lambda>q. f q + (if q \<in> set links then d / real linked_pages else 0)) ks)"
  using assms
proof (induction links arbitrary: f)
  case Nil
  then show ?case by simp
next
  case (Cons l links)
  let ?g = "\<lambda>q. if q = l then f l + d / real linked_pages else f q"
  have "link_loop (l # links) d linked_pages (tabulate f ks) =
          link_loop links d linked_pages (tabulate ?g ks)"
    using Cons.prems by (simp add: map_of_tabulate py_div_def update_tabulate)
  also have "\<dots> = Inr (tabulate (\<lambda>q. ?g q + (if q \<in> set links then d / real linked_pages else 0)) ks)"
    using Cons.prems by (intro Cons.IH) auto
  also have "tabulate (\<lambda>q. ?g q + (if q \<in> set links then d / real linked_pages else 0)) ks =
             tabulate (\<lambda>q. f q + (if q \<in> set (l # links) then d / real linked_pages else 0)) ks"
    using Cons.prems by (intro tabulate_cong) auto
  finally show ?case .
qed

lemma valid_graph_links:
  assumes "valid_graph corpus" "map_of corpus page = Some links"
  shows "distinct links" "set links \<subseteq> set (keys corpus)" "page \<notin> set links"
proof -
  from assms(2) have "(page, links) \<in> set corpus" by (rule map_of_SomeD)
  with assms(1) show "distinct links" "set links \<subseteq> set (keys corpus)" "page \<notin> set links"
    by (auto simp: valid_graph_def dict_repr_def)
qed

lemma dict_values_tabulate: "dict_values (tabulate f ks) = map f ks"
  by (simp add: dict_values_def tabulate_def comp_def)

lemma base_loop_keys:
  assumes "distinct ks"
  shows "base_loop ks d (length ks) [] = Inr (tabulate (\<lambda>_. (1 - d) / real (length ks)) ks)"
proof (cases "ks = []")
  case True
  then show ?thesis by simp
next
  case False
  then have "length ks \<noteq> 0" by simp
  from base_loop_tabulate [OF this assms, of "[]" d] show ?thesis by simp
qed

lemma transition_model_closed:
  assumes "valid_graph corpus"
  shows "transition_model corpus page d = Inr (tabulate (probability corpus d page) (keys corpus))"
proof -
  have dk: "distinct (keys corpus)"
    using assms by (simp add: valid_graph_def dict_repr_def)
  have len: "length (keys corpus) = length corpus" by (simp add: keys_def)
  have base: "base_loop (keys corpus) d (length (keys corpus)) [] =
                Inr (tabulate (\<lambda>_. (1 - d) / real (length corpus)) (keys corpus))"
    using base_loop_keys [OF dk, of d] by (simp add: len)
  show ?thesis
  proof (cases "map_of corpus page")
    case None
    then show ?thesis
      by (auto simp: transition_model_def base probability_def intro!: tabulate_cong)
  next
    case (Some links)
    show ?thesis
    proof (cases "links = []")
      case True
      with Some show ?thesis
        by (auto simp: transition_model_def base probability_def intro!: tabulate_cong)
    next
      case False
      then have L: "length links \<noteq> 0" by simp
      have "transition_model corpus page d =
              link_loop links d (length links)
                (tabulate (\<lambda>_. (1 - d) / real (length corpus)) (keys corpus))"
        using Some False by (simp add: transition_model_def base)
      also have "\<dots> = Inr (tabulate (\<lambda>q. (1 - d) / real (length corpus) +
                               (if q \<in> set links then d / real (length links) else 0))
                  (keys corpus))"
        using valid_graph_links [OF assms Some] by (intro link_loop_tabulate L dk)
      finally show ?thesis using Some by (auto simp: probability_def intro!: tabulate_cong)
    qed
  qed
qed

lemma sum_list_indicator:
  assumes "distinct ks" "distinct links" "set links \<subseteq> set ks"
  shows "(\<Sum>q\<leftarrow>ks. if q \<in> set links then c else (0::real)) = real (length links) * c"
proof -
  have "(\<Sum>q\<leftarrow>ks. if q \<in> set links then c else 0) = (\<Sum>q\<in>set ks. if q \<in> set links then c else 0)"
    using assms(1) by (simp add: sum_list_distinct_conv_sum_set)
  also have "\<dots> = (\<Sum>q\<in>set ks \<inter> set links. c)"
    by (rule sum.inter_restrict [symmetric]) simp
  also have "set ks \<inter> set links = set links" using assms(3) by auto
  also have "(\<Sum>q\<in>set links. c) = real (length links) * c"
    using assms(2) by (simp add: distinct_card)
  finally show ?thesis .
qed

lemma probability_total:
  assumes "valid_graph corpus" "corpus \<noteq> []"
  shows "(\<Sum>q\<leftarrow>keys corpus. probability corpus d page q) =
           (if outdegree corpus page = 0 then 1 - d else 1)"
proof -
  have dk: "distinct (keys corpus)"
    using assms by (simp add: valid_graph_def dict_repr_def)
  have N: "real (length corpus) \<noteq> 0" using assms(2) by simp
  have len: "length (keys corpus) = length corpus" by (simp add: keys_def)
  have base: "(\<Sum>q\<leftarrow>keys corpus. (1 - d) / real (length corpus)) = 1 - d"
    using N by (simp add: sum_list_triv len)
  show ?thesis
  proof (cases "map_of corpus page")
    case None
    then show ?thesis
      using base by (simp add: probability_def outdegree_def)
  next
    case (Some links)
    have "(\<Sum>q\<leftarrow>keys corpus. probability corpus d page q) =
          (\<Sum>q\<leftarrow>keys corpus. (1 - d) / real (length corpus)) +
          (\<Sum>q\<leftarrow>keys corpus. if q \<in> set links then d / real (length links) else 0)"
      using Some by (simp add: probability_def sum_list_addf)
    also have "\<dots> = 1 - d + real (length links) * (d / real (length links))"
      using valid_graph_links [OF assms(1) Some] dk by (simp add: base sum_list_indicator)
    finally show ?thesis using Some by (simp add: outdegree_def)
  qed
qed

lemma transition_model_mass:
  assumes "valid_graph corpus" "corpus \<noteq> []"
  shows "\<exists>pd. transition_model corpus page d = Inr pd \<and>
           sum_list (dict_values pd) = (if outdegree corpus page = 0 then 1 - d else 1)"
  using transition_model_closed [OF assms(1), of page d] probability_total [OF assms, of d page]
  by (simp add: dict_values_tabulate)

text \<open>
  Claim C6. For a page of a valid graph with at least one outbound link, and any damping
  factor, the transition model gives every page of the graph the base term
  \<open>(1 - damping) / N\<close>, and each page linked from the given page \<open>damping / L\<close> in addition.
\<close>

theorem transition_model_linked:
  assumes "valid_graph corpus" and "map_of corpus page = Some links" and "links \<noteq> []"
  shows "transition_model corpus page d =
           Inr (tabulate (\<lambda>q. (1 - d) / real (length corpus) +
                               (if q \<in> set links then d / real (length links) else 0))
                  (keys corpus))"
proof -
  have ne: "length (keys corpus) \<noteq> 0"
    using assms(2) by (auto simp: keys_def)
  have dist: "distinct (keys corpus)"
    using assms(1) by (simp add: valid_graph_def dict_repr_def)
  have base: "base_loop (keys corpus) d (length (keys corpus)) [] =
                Inr (tabulate (\<lambda>_. (1 - d) / real (length (keys corpus))) (keys corpus))"
    using base_loop_tabulate [OF ne dist, of "[]" d] by simp
  have L: "length links \<noteq> 0" using assms(3) by simp
  have "transition_model corpus page d =
          link_loop links d (length links)
            (tabulate (\<lambda>_. (1 - d) / real (length (keys corpus))) (keys corpus))"
    using assms(2,3) by (simp add: transition_model_def base)
  also have "\<dots> = Inr (tabulate (\<lambda>q. (1 - d) / real (length (keys corpus)) +
                               (if q \<in> set links then d / real (length links) else 0))
                  (keys corpus))"
    using valid_graph_links [OF assms(1,2)] by (intro link_loop_tabulate L dist)
  finally show ?thesis by (simp add: keys_def)
qed

theorem transition_model_linked_witness:
  "valid_graph two_cycle \<and> map_of two_cycle ''A'' = Some [''B''] \<and> [''B''] \<noteq> ([] :: page list) \<and>
   transition_model two_cycle ''A'' (85 / 100) = Inr [(''A'', 3 / 40), (''B'', 37 / 40)]"
proof -
  have v: "valid_graph two_cycle"
    by (simp add: valid_graph_def dict_repr_def two_cycle_def keys_def)
  have m: "map_of two_cycle ''A'' = Some [''B'']"
    by (simp add: two_cycle_def)
  have n: "[''B''] \<noteq> ([] :: page list)" by simp
  show ?thesis
    using v m n transition_model_linked [OF v m n, of "85 / 100"]
    by (simp add: two_cycle_def keys_def)
qed

text \<open>
  Claim C1, at the graph \<open>{A: {B}, B: {}}\<close> with damping 0.85: for the page B, which has
  no outbound link, the transition model returns the base term alone, 0.075 for each
  page, so the values sum to 0.15 and not to 1.
\<close>

theorem transition_model_dangling:
  "transition_model dangling_graph ''B'' (85 / 100) = Inr [(''A'', 3 / 40), (''B'', 3 / 40)] \<and>
   sum_list (dict_values [(''A'', 3 / 40 :: real), (''B'', 3 / 40)]) = 3 / 20"
  by (simp add: transition_model_def dangling_graph_def keys_def py_div_def dict_values_def)

section \<open>What the iterative estimator computes\<close>

lemma in_keys_map_of: "k \<in> set (keys al) \<Longrightarrow> \<exists>v. map_of al k = Some v"
  by (cases "map_of al k") (auto simp: keys_def map_of_eq_None_iff)

lemma update_appended: "k \<notin> fst ` set al \<Longrightarrow> AList.update k w (al @ [(k, v)]) = al @ [(k, w)]"
  by (induction al) auto

lemma init_loop_tabulate:
  assumes "N \<noteq> 0" "distinct ks" "set ks \<inter> fst ` set pr = {}"
  shows "init_loop ks N pr = Inr (pr @ tabulate (\<lambda>_. 1 / real N) ks)"
  using assms
proof (induction ks arbitrary: pr)
  case Nil
  then show ?case by simp
next
  case (Cons k ks)
  from Cons.prems have fresh: "k \<notin> fst ` set pr" by auto
  have disj: "set ks \<inter> fst ` set (pr @ [(k, 1 / real N)]) = {}"
    using Cons.prems by auto
  show ?case
    using Cons.prems Cons.IH [OF _ _ disj]
    by (simp add: py_div_def update_fresh [OF fresh])
qed

lemma init_loop_keys:
  assumes "distinct ks"
  shows "init_loop ks (length ks) [] = Inr (tabulate (\<lambda>_. 1 / real (length ks)) ks)"
proof (cases "ks = []")
  case True
  then show ?thesis by simp
next
  case False
  then have "length ks \<noteq> 0" by simp
  from init_loop_tabulate [OF this assms, of "[]"] show ?thesis by simp
qed

lemma inner_loop_sum:
  assumes "set js \<subseteq> set (keys corpus)" "set js \<subseteq> set (keys pagerank)"
    and "map_of new page = Some acc"
  shows "inner_loop js corpus d pagerank page new =
           Inr (AList.update page (acc + (\<Sum>i \<leftarrow> js. contribution corpus d pagerank page i)) new)"
  using assms
proof (induction js arbitrary: new acc)
  case Nil
  then show ?case by (simp add: update_triv)
next
  case (Cons i js)
  from Cons.prems obtain links where links: "map_of corpus i = Some links"
    using in_keys_map_of [of i corpus] by auto
  from Cons.prems obtain r where r: "map_of pagerank i = Some r"
    using in_keys_map_of [of i pagerank] by auto
  have sub: "set js \<subseteq> set (keys corpus)" "set js \<subseteq> set (keys pagerank)"
    using Cons.prems by auto
  show ?case
  proof (cases "page \<in> set links")
    case True
    then have L: "real (length links) \<noteq> 0" by auto
    let ?q = "d * r / real (length links)"
    have c: "contribution corpus d pagerank page i = ?q"
      using True links r by (simp add: contribution_def links_to_def outdegree_def entry_def)
    have m: "map_of (AList.update page (acc + ?q) new) page = Some (acc + ?q)"
      by (simp add: update_conv')
    have "inner_loop (i # js) corpus d pagerank page new =
            inner_loop js corpus d pagerank page (AList.update page (acc + ?q) new)"
      using True links r L Cons.prems(3) by (simp add: py_div_def)
    also have "\<dots> = Inr (AList.update page
                 (acc + ?q + (\<Sum>i \<leftarrow> js. contribution corpus d pagerank page i))
                 (AList.update page (acc + ?q) new))"
      by (rule Cons.IH [OF sub m])
    finally show ?thesis by (simp add: c add.assoc)
  next
    case False
    then have c: "contribution corpus d pagerank page i = 0"
      using links by (simp add: contribution_def links_to_def)
    have "inner_loop (i # js) corpus d pagerank page new =
            inner_loop js corpus d pagerank page new"
      using False links by simp
    also have "\<dots> = Inr (AList.update page
                 (acc + (\<Sum>i \<leftarrow> js. contribution corpus d pagerank page i)) new)"
      by (rule Cons.IH [OF sub Cons.prems(3)])
    finally show ?thesis by (simp add: c)
  qed
qed

lemma rank_loop_tabulate:
  assumes "distinct ps" "set ps \<inter> fst ` set new = {}" "ps \<noteq> [] \<longrightarrow> length corpus \<noteq> 0"
    and "set (keys corpus) \<subseteq> set (keys pagerank)"
  shows "rank_loop ps corpus d (length corpus) pagerank new =
           Inr (new @ tabulate (new_rank corpus d pagerank) ps)"
  using assms(1-3)
proof (induction ps arbitrary: new)
  case Nil
  then show ?case by simp
next
  case (Cons page ps)
  let ?v = "(1 - d) / real (length corpus)"
  from Cons.prems have fresh: "page \<notin> fst ` set new" by auto
  have N: "real (length corpus) \<noteq> 0" using Cons.prems by simp
  have m: "map_of (new @ [(page, ?v)]) page = Some ?v"
    using fresh by (simp add: map_add_Some_iff map_of_eq_None_iff)
  have inner: "inner_loop (keys corpus) corpus d pagerank page (new @ [(page, ?v)]) =
                 Inr (new @ [(page, new_rank corpus d pagerank page)])"
    using inner_loop_sum [OF subset_refl assms(4) m, of d]
    by (simp add: update_appended [OF fresh] new_rank_def)
  have disj: "set ps \<inter> fst ` set (new @ [(page, new_rank corpus d pagerank page)]) = {}"
    using Cons.prems by auto
  have "rank_loop (page # ps) corpus d (length corpus) pagerank new =
          rank_loop ps corpus d (length corpus) pagerank
            (new @ [(page, new_rank corpus d pagerank page)])"
    using N by (simp add: py_div_def update_fresh [OF fresh] inner)
  also have "\<dots> = Inr ((new @ [(page, new_rank corpus d pagerank page)]) @
                       tabulate (new_rank corpus d pagerank) ps)"
    using Cons.prems by (intro Cons.IH disj) auto
  finally show ?case by simp
qed

lemma check_loop_all:
  assumes "set ps \<subseteq> set (keys new)" "set ps \<subseteq> set (keys pr)"
  shows "check_loop ps new pr = Inr (\<forall>p \<in> set ps. \<bar>entry new p - entry pr p\<bar> < 1 / 1000)"
  using assms
proof (induction ps)
  case Nil
  then show ?case by simp
next
  case (Cons p ps)
  from Cons.prems obtain a where a: "map_of new p = Some a"
    using in_keys_map_of [of p new] by auto
  from Cons.prems obtain b where b: "map_of pr p = Some b"
    using in_keys_map_of [of p pr] by auto
  show ?case
    using Cons a b by (auto simp: entry_def)
qed

lemma check_loop_True:
  "check_loop ps new pr = Inr True \<Longrightarrow> \<forall>p \<in> set ps. \<bar>entry new p - entry pr p\<bar> < 1 / 1000"
  by (induction ps) (auto simp: entry_def split: option.splits if_splits)

lemma contribution_sum:
  "(\<Sum>i \<leftarrow> ks. contribution corpus d pagerank page i) =
     d * (\<Sum>i \<leftarrow> filter (\<lambda>i. links_to corpus i page) ks.
            entry pagerank i / real (outdegree corpus i))"
  by (induction ks) (simp_all add: contribution_def algebra_simps)

lemma new_rank_spec: "new_rank corpus d pagerank page = spec_new_rank corpus d pagerank page"
  by (simp add: new_rank_def spec_new_rank_def contribution_sum)

lemma rank_loop_keys:
  assumes "distinct (keys corpus)" "set (keys corpus) \<subseteq> set (keys rank)"
  shows "rank_loop (keys corpus) corpus d (length corpus) rank [] =
           Inr (tabulate (spec_new_rank corpus d rank) (keys corpus))"
proof -
  have "keys corpus \<noteq> [] \<longrightarrow> length corpus \<noteq> 0" by (simp add: keys_def)
  from rank_loop_tabulate [OF assms(1) _ this assms(2), of "[]" d]
  have "rank_loop (keys corpus) corpus d (length corpus) rank [] =
          Inr (tabulate (new_rank corpus d rank) (keys corpus))" by simp
  also have "tabulate (new_rank corpus d rank) (keys corpus) =
             tabulate (spec_new_rank corpus d rank) (keys corpus)"
    by (intro tabulate_cong) (simp add: new_rank_spec)
  finally show ?thesis .
qed

lemma while_loop_unfold:
  assumes "distinct (keys corpus)" "set (keys corpus) \<subseteq> set (keys rank)"
  shows "while_loop corpus d (length corpus) rank =
           (if spec_converged corpus (tabulate (spec_new_rank corpus d rank) (keys corpus)) rank
            then Some (Inr rank)
            else while_loop corpus d (length corpus)
                   (tabulate (spec_new_rank corpus d rank) (keys corpus)))"
proof -
  let ?new = "tabulate (spec_new_rank corpus d rank) (keys corpus)"
  have chk: "check_loop (keys corpus) ?new rank = Inr (spec_converged corpus ?new rank)"
    using check_loop_all [of "keys corpus" ?new rank] assms(2)
    by (simp add: spec_converged_def)
  show ?thesis
    by (subst while_loop.simps) (simp add: rank_loop_keys [OF assms] chk)
qed

lemma while_loop_no_error:
  assumes run: "while_loop corpus d N rank = Some y"
    and "distinct (keys corpus)" "set (keys corpus) \<subseteq> set (keys rank)" "N = length corpus"
  shows "\<exists>res. y = Inr res"
proof -
  define P where "P = (\<lambda>(corpus :: corpus) (d :: real) N (rank :: distribution)
      (y :: error + distribution).
    distinct (keys corpus) \<longrightarrow> set (keys corpus) \<subseteq> set (keys rank) \<longrightarrow> N = length corpus
      \<longrightarrow> (\<exists>res. y = Inr res))"
  have "P corpus d N rank y"
  proof (rule while_loop.raw_induct [where P = P, OF _ run])
    fix w :: "corpus \<Rightarrow> real \<Rightarrow> nat \<Rightarrow> distribution \<Rightarrow> (error + distribution) option"
    fix corpus d N rank y
    assume IH: "\<And>corpus d N rank y. w corpus d N rank = Some y \<Longrightarrow> P corpus d N rank y"
    assume body: "(case rank_loop (keys corpus) corpus d N rank [] of
        Inl e \<Rightarrow> Some (Inl e)
      | Inr new_pagerank \<Rightarrow>
          (case check_loop (keys corpus) new_pagerank rank of
             Inl e \<Rightarrow> Some (Inl e)
           | Inr converged \<Rightarrow>
               if converged then Some (Inr rank)
               else w corpus d N new_pagerank)) = Some y"
    show "P corpus d N rank y"
      unfolding P_def
    proof (intro impI)
      assume dk: "distinct (keys corpus)" and sub: "set (keys corpus) \<subseteq> set (keys rank)"
        and N: "N = length corpus"
      let ?new = "tabulate (spec_new_rank corpus d rank) (keys corpus)"
      have chk: "check_loop (keys corpus) ?new rank = Inr (spec_converged corpus ?new rank)"
        using check_loop_all [of "keys corpus" ?new rank] sub
        by (simp add: spec_converged_def)
      show "\<exists>res. y = Inr res"
      proof (cases "spec_converged corpus ?new rank")
        case True
        with body show ?thesis
          by (auto simp: N rank_loop_keys [OF dk sub] chk)
      next
        case False
        with body have "w corpus d N ?new = Some y"
          by (simp add: N rank_loop_keys [OF dk sub] chk)
        from IH [OF this] have "P corpus d N ?new y" .
        with dk N show ?thesis by (simp add: P_def)
      qed
    qed
  qed
  with assms(2-4) show ?thesis by (simp add: P_def)
qed

lemma while_loop_returns:
  assumes "iterates k corpus d N rank = Inr r"
    and "rank_loop (keys corpus) corpus d N r [] = Inr new"
    and "check_loop (keys corpus) new r = Inr True"
    and "\<forall>j<k. \<forall>a b. iterates j corpus d N rank = Inr a \<longrightarrow>
            rank_loop (keys corpus) corpus d N a [] = Inr b \<longrightarrow>
            check_loop (keys corpus) b a = Inr False"
  shows "while_loop corpus d N rank = Some (Inr r)"
  using assms
proof (induction k arbitrary: rank)
  case 0
  then show ?case by (subst while_loop.simps) simp
next
  case (Suc k)
  from Suc.prems(1) obtain nxt where nxt: "rank_loop (keys corpus) corpus d N rank [] = Inr nxt"
    and it: "iterates k corpus d N nxt = Inr r"
    by (auto split: sum.splits)
  from Suc.prems(4) nxt have chk: "check_loop (keys corpus) nxt rank = Inr False"
    by (metis iterates.simps(1) zero_less_Suc)
  have later: "\<forall>j<k. \<forall>a b. iterates j corpus d N nxt = Inr a \<longrightarrow>
            rank_loop (keys corpus) corpus d N a [] = Inr b \<longrightarrow>
            check_loop (keys corpus) b a = Inr False"
  proof (intro allI impI)
    fix j a b
    assume "j < k" "iterates j corpus d N nxt = Inr a"
      "rank_loop (keys corpus) corpus d N a [] = Inr b"
    then show "check_loop (keys corpus) b a = Inr False"
      using Suc.prems(4) nxt
      by (metis Suc_less_eq iterates.simps(2) old.sum.simps(6))
  qed
  have "while_loop corpus d N rank = while_loop corpus d N nxt"
    by (subst while_loop.simps) (simp add: nxt chk)
  also have "\<dots> = Some (Inr r)"
    by (rule Suc.IH [OF it Suc.prems(2,3) later])
  finally show ?case .
qed

text \<open>
  Claim C2. The iterative estimator starts from the rank \<open>1 / N\<close> for every page; each
  pass of its loop computes, for every page, the recurrence of the specification from
  the current rank vector; the loop stops exactly when every page changed by less than
  0.001, and otherwise goes on with the new vector as the current one. A page without
  outbound links links to no page, so it adds nothing to any sum.
\<close>

theorem iterate_pagerank_recurrence:
  assumes "dict_repr corpus"
  shows "iterate_pagerank corpus d =
           while_loop corpus d (length corpus)
             (tabulate (\<lambda>_. 1 / real (length corpus)) (keys corpus)) \<and>
         (\<forall>rank. keys rank = keys corpus \<longrightarrow>
            rank_loop (keys corpus) corpus d (length corpus) rank [] =
              Inr (tabulate (spec_new_rank corpus d rank) (keys corpus)) \<and>
            while_loop corpus d (length corpus) rank =
              (if spec_converged corpus (tabulate (spec_new_rank corpus d rank) (keys corpus)) rank
               then Some (Inr rank)
               else while_loop corpus d (length corpus)
                      (tabulate (spec_new_rank corpus d rank) (keys corpus)))) \<and>
         (\<forall>i p. outdegree corpus i = 0 \<longrightarrow> \<not> links_to corpus i p)"
proof (intro conjI allI impI)
  have dk: "distinct (keys corpus)"
    using assms by (simp add: dict_repr_def)
  have len: "length (keys corpus) = length corpus" by (simp add: keys_def)
  show "iterate_pagerank corpus d =
          while_loop corpus d (length corpus)
            (tabulate (\<lambda>_. 1 / real (length corpus)) (keys corpus))"
    using init_loop_keys [OF dk] by (simp add: iterate_pagerank_def len Let_def)
  fix rank :: distribution
  assume "keys rank = keys corpus"
  then have sub: "set (keys corpus) \<subseteq> set (keys rank)" by simp
  show "rank_loop (keys corpus) corpus d (length corpus) rank [] =
          Inr (tabulate (spec_new_rank corpus d rank) (keys corpus))"
    by (rule rank_loop_keys [OF dk sub])
  show "while_loop corpus d (length corpus) rank =
          (if spec_converged corpus (tabulate (spec_new_rank corpus d rank) (keys corpus)) rank
           then Some (Inr rank)
           else while_loop corpus d (length corpus)
                  (tabulate (spec_new_rank corpus d rank) (keys corpus)))"
    by (rule while_loop_unfold [OF dk sub])
next
  fix i p
  assume "outdegree corpus i = 0"
  then show "\<not> links_to corpus i p"
    by (auto simp: outdegree_def links_to_def split: option.splits)
qed

theorem iterate_pagerank_recurrence_witness:
  "dict_repr dangling_graph \<and>
   keys [(''A'', 1 / 2 :: real), (''B'', 1 / 2)] = keys dangling_graph \<and>
   rank_loop (keys dangling_graph) dangling_graph (85 / 100) (length dangling_graph)
     [(''A'', 1 / 2), (''B'', 1 / 2)] [] = Inr [(''A'', 3 / 40), (''B'', 1 / 2)] \<and>
   \<not> spec_converged dangling_graph [(''A'', 3 / 40), (''B'', 1 / 2)]
       [(''A'', 1 / 2), (''B'', 1 / 2)] \<and>
   outdegree dangling_graph ''B'' = 0 \<and> \<not> links_to dangling_graph ''B'' ''A'' \<and>
   iterate_pagerank dangling_graph (85 / 100) = Some (Inr [(''A'', 3 / 40), (''B'', 111 / 800)])"
proof -
  have h: "dict_repr dangling_graph"
    by (simp add: dict_repr_def dangling_graph_def keys_def)
  have run: "iterate_pagerank dangling_graph (85 / 100) =
               Some (Inr [(''A'', 3 / 40), (''B'', 111 / 800)])"
    by (simp add: iterate_pagerank_def while_loop.simps dangling_graph_def keys_def py_div_def)
  show ?thesis
    using h run iterate_pagerank_recurrence [OF h, of "85 / 100"]
    by (simp add: dangling_graph_def keys_def py_div_def spec_converged_def entry_def
        outdegree_def links_to_def)
qed

text \<open>
  Claim C7. On the graph in which A links only to B and B only to A, with damping 0.85,
  the iterative estimator returns, and its result is \<open>{A: 0.5, B: 0.5}\<close>.
\<close>

theorem iterate_pagerank_two_cycle:
  "iterate_pagerank two_cycle (85 / 100) = Some (Inr [(''A'', 1 / 2), (''B'', 1 / 2)])"
  by (simp add: iterate_pagerank_def while_loop.simps two_cycle_def keys_def py_div_def)

text \<open>
  Claim C10. When the convergence check succeeds for the first time, after \<open>k\<close>
  assignments \<^verbatim>\<open>pagerank = new_pagerank\<close>, the estimator returns \<open>pagerank\<close>, the vector
  from which the last \<open>new_pagerank\<close> was computed, and not \<open>new_pagerank\<close>. The two differ
  by less than 0.001 at every page; they are different vectors for the graph
  \<open>{A: {B}, B: {A}, C: {A}}\<close> with damping 0.1.
\<close>

theorem iterate_pagerank_returns_previous:
  assumes "init_loop (keys corpus) (length (keys corpus)) [] = Inr init"
    and "iterates k corpus d (length (keys corpus)) init = Inr r"
    and "rank_loop (keys corpus) corpus d (length (keys corpus)) r [] = Inr new"
    and "check_loop (keys corpus) new r = Inr True"
    and "\<forall>j<k. \<forall>a b. iterates j corpus d (length (keys corpus)) init = Inr a \<longrightarrow>
            rank_loop (keys corpus) corpus d (length (keys corpus)) a [] = Inr b \<longrightarrow>
            check_loop (keys corpus) b a = Inr False"
  shows "iterate_pagerank corpus d = Some (Inr r) \<and>
         (\<forall>p \<in> set (keys corpus). \<bar>entry new p - entry r p\<bar> < 1 / 1000) \<and>
         (\<exists>r' new'. iterate_pagerank three_pages (1 / 10) = Some (Inr r') \<and>
            rank_loop (keys three_pages) three_pages (1 / 10) (length (keys three_pages)) r' [] =
              Inr new' \<and> new' \<noteq> r')"
proof (intro conjI)
  have "while_loop corpus d (length (keys corpus)) init = Some (Inr r)"
    by (rule while_loop_returns [OF assms(2-5)])
  then show "iterate_pagerank corpus d = Some (Inr r)"
    using assms(1) by (simp add: iterate_pagerank_def)
  show "\<forall>p \<in> set (keys corpus). \<bar>entry new p - entry r p\<bar> < 1 / 1000"
    by (rule check_loop_True [OF assms(4)])
  have "iterate_pagerank three_pages (1 / 10) =
          Some (Inr [(''A'', 109 / 300), (''B'', 101 / 300), (''C'', 3 / 10)])"
    by (simp add: iterate_pagerank_def while_loop.simps three_pages_def keys_def py_div_def)
  moreover have "rank_loop (keys three_pages) three_pages (1 / 10) (length (keys three_pages))
          [(''A'', 109 / 300), (''B'', 101 / 300), (''C'', 3 / 10)] [] =
        Inr [(''A'', 1091 / 3000), (''B'', 1009 / 3000), (''C'', 3 / 10)]"
    by (simp add: three_pages_def keys_def py_div_def)
  ultimately show "\<exists>r' new'. iterate_pagerank three_pages (1 / 10) = Some (Inr r') \<and>
            rank_loop (keys three_pages) three_pages (1 / 10) (length (keys three_pages)) r' [] =
              Inr new' \<and> new' \<noteq> r'"
    by auto
qed

theorem iterate_pagerank_returns_previous_witness:
  "init_loop (keys three_pages) (length (keys three_pages)) [] =
     Inr [(''A'', 1 / 3), (''B'', 1 / 3), (''C'', 1 / 3)] \<and>
   iterates 2 three_pages (1 / 10) (length (keys three_pages))
     [(''A'', 1 / 3), (''B'', 1 / 3), (''C'', 1 / 3)] =
     Inr [(''A'', 109 / 300), (''B'', 101 / 300), (''C'', 3 / 10)] \<and>
   rank_loop (keys three_pages) three_pages (1 / 10) (length (keys three_pages))
     [(''A'', 109 / 300), (''B'', 101 / 300), (''C'', 3 / 10)] [] =
     Inr [(''A'', 1091 / 3000), (''B'', 1009 / 3000), (''C'', 3 / 10)] \<and>
   check_loop (keys three_pages) [(''A'', 1091 / 3000), (''B'', 1009 / 3000), (''C'', 3 / 10)]
     [(''A'', 109 / 300), (''B'', 101 / 300), (''C'', 3 / 10)] = Inr True \<and>
   check_loop (keys three_pages) [(''A'', 109 / 300), (''B'', 101 / 300), (''C'', 3 / 10)]
     [(''A'', 11 / 30), (''B'', 1 / 3), (''C'', 3 / 10)] = Inr False \<and>
   iterate_pagerank three_pages (1 / 10) =
     Some (Inr [(''A'', 109 / 300), (''B'', 101 / 300), (''C'', 3 / 10)])"
proof -
  let ?N = "length (keys three_pages)"
  let ?init = "[(''A'', 1 / 3), (''B'', 1 / 3), (''C'', 1 / 3)] :: distribution"
  let ?r = "[(''A'', 109 / 300), (''B'', 101 / 300), (''C'', 3 / 10)] :: distribution"
  let ?new = "[(''A'', 1091 / 3000), (''B'', 1009 / 3000), (''C'', 3 / 10)] :: distribution"
  have h1: "init_loop (keys three_pages) ?N [] = Inr ?init"
    by (simp add: three_pages_def keys_def py_div_def)
  have h2: "iterates 2 three_pages (1 / 10) ?N ?init = Inr ?r"
    by (simp add: numeral_2_eq_2 three_pages_def keys_def py_div_def)
  have h3: "rank_loop (keys three_pages) three_pages (1 / 10) ?N ?r [] = Inr ?new"
    by (simp add: three_pages_def keys_def py_div_def)
  have h4: "check_loop (keys three_pages) ?new ?r = Inr True"
    by (simp add: three_pages_def keys_def)
  have h5: "\<forall>j<2. \<forall>a b. iterates j three_pages (1 / 10) ?N ?init = Inr a \<longrightarrow>
            rank_loop (keys three_pages) three_pages (1 / 10) ?N a [] = Inr b \<longrightarrow>
            check_loop (keys three_pages) b a = Inr False"
    by (auto simp: less_2_cases_iff three_pages_def keys_def py_div_def)
  have h6: "check_loop (keys three_pages) ?r
     [(''A'', 11 / 30), (''B'', 1 / 3), (''C'', 3 / 10)] = Inr False"
    by (simp add: three_pages_def keys_def)
  show ?thesis
    using h1 h2 h3 h4 h6 iterate_pagerank_returns_previous [OF h1 h2 h3 h4 h5]
    by simp
qed

section \<open>What the sampling estimator computes\<close>

lemma zero_loop_tabulate:
  assumes "distinct ks" "set ks \<inter> fst ` set pr = {}"
  shows "zero_loop ks pr = pr @ tabulate (\<lambda>_. 0) ks"
  using assms
proof (induction ks arbitrary: pr)
  case Nil
  then show ?case by simp
next
  case (Cons k ks)
  from Cons.prems have fresh: "k \<notin> fst ` set pr" by auto
  have disj: "set ks \<inter> fst ` set (pr @ [(k, 0)]) = {}"
    using Cons.prems by auto
  show ?case
    using Cons.prems Cons.IH [OF _ disj] by (simp add: update_fresh [OF fresh])
qed

lemma credit_loop_tabulate:
  assumes "n \<noteq> 0" "distinct ks0" "distinct ks" "set ks \<subseteq> set ks0"
  shows "credit_loop ks (tabulate g ks0) n (tabulate f ks0) =
           Inr (tabulate (\<lambda>p. f p + (if p \<in> set ks then g p / real_of_int n else 0)) ks0)"
  using assms
proof (induction ks arbitrary: f)
  case Nil
  then show ?case by simp
next
  case (Cons k ks)
  let ?f = "\<lambda>q. if q = k then f k + g k / real_of_int n else f q"
  have "credit_loop (k # ks) (tabulate g ks0) n (tabulate f ks0) =
          credit_loop ks (tabulate g ks0) n (tabulate ?f ks0)"
    using Cons.prems by (simp add: map_of_tabulate py_div_def update_tabulate)
  also have "\<dots> = Inr (tabulate (\<lambda>p. ?f p + (if p \<in> set ks then g p / real_of_int n else 0)) ks0)"
    using Cons.prems by (intro Cons.IH) auto
  also have "tabulate (\<lambda>p. ?f p + (if p \<in> set ks then g p / real_of_int n else 0)) ks0 =
             tabulate (\<lambda>p. f p + (if p \<in> set (k # ks) then g p / real_of_int n else 0)) ks0"
    using Cons.prems by (intro tabulate_cong) auto
  finally show ?case .
qed

lemma length_accumulate_from: "length (accumulate_from s ws) = length ws"
  by (induction ws arbitrary: s) auto

lemma accumulate_from_Nil_iff: "accumulate_from s ws = [] \<longleftrightarrow> ws = []"
  by (cases ws) auto

lemma last_accumulate_from: "ws \<noteq> [] \<Longrightarrow> last (accumulate_from s ws) = s + sum_list ws"
proof (induction ws arbitrary: s)
  case Nil
  then show ?case by simp
next
  case (Cons w ws)
  show ?case
  proof (cases "ws = []")
    case True
    then show ?thesis by simp
  next
    case False
    then have "last (accumulate_from (s + w) ws) = s + w + sum_list ws"
      by (rule Cons.IH)
    with False show ?thesis
      by (simp add: accumulate_from_Nil_iff add.assoc)
  qed
qed

lemma bisect_right_le: "lo \<le> hi \<Longrightarrow> bisect_right a x lo hi \<le> hi"
proof (induction a x lo hi rule: bisect_right.induct)
  case (1 a x lo hi)
  show ?case
  proof (cases "lo < hi")
    case True
    define mid where "mid = (lo + hi) div 2"
    from True have m: "lo \<le> mid" "mid < hi" by (auto simp: mid_def)
    show ?thesis
    proof (cases "x < a ! mid")
      case t: True
      have "bisect_right a x lo mid \<le> mid"
        by (rule "1.IH"(1) [OF True mid_def t m(1)])
      moreover have "bisect_right a x lo hi = bisect_right a x lo mid"
        using True t by (subst bisect_right.simps) (simp add: Let_def mid_def)
      ultimately show ?thesis using m by linarith
    next
      case f: False
      from m have "mid + 1 \<le> hi" by simp
      then have "bisect_right a x (mid + 1) hi \<le> hi"
        by (rule "1.IH"(2) [OF True mid_def f])
      moreover have "bisect_right a x lo hi = bisect_right a x (mid + 1) hi"
        using True f by (subst bisect_right.simps) (simp add: Let_def mid_def)
      ultimately show ?thesis by simp
    qed
  next
    case False
    then have "bisect_right a x lo hi = lo"
      by (subst bisect_right.simps) simp
    with 1 show ?thesis by simp
  qed
qed

lemma random_choices_total:
  assumes "population \<noteq> []" "length weights = length population" "0 < sum_list weights"
  shows "\<exists>p \<in> set population. random_choices u population weights = Inr p"
proof -
  let ?cum = "accumulate weights"
  have w: "weights \<noteq> []" using assms(1,2) by auto
  have len: "length ?cum = length population"
    using assms(2) by (simp add: accumulate_def length_accumulate_from)
  then have ne: "?cum \<noteq> []" using assms(1) by auto
  have total: "last ?cum = sum_list weights"
    using w by (simp add: accumulate_def last_accumulate_from)
  let ?i = "bisect_right ?cum (u * last ?cum) 0 (length population - 1)"
  have "?i \<le> length population - 1" by (rule bisect_right_le) simp
  then have "?i < length population" using assms(1) by (cases population) auto
  then have "population ! ?i \<in> set population" by simp
  moreover have "random_choices u population weights = Inr (population ! ?i)"
    using len ne total assms(3) by (simp add: random_choices_def Let_def)
  ultimately show ?thesis by simp
qed

lemma outdegree_no_dangling:
  assumes "no_dangling corpus" "page \<in> set (keys corpus)"
  shows "outdegree corpus page \<noteq> 0"
proof -
  from in_keys_map_of [OF assms(2)] obtain links where l: "map_of corpus page = Some links" ..
  then have "(page, links) \<in> set corpus" by (rule map_of_SomeD)
  with assms(1) have "links \<noteq> []" by (auto simp: no_dangling_def)
  with l show ?thesis by (simp add: outdegree_def)
qed

lemma draw_total:
  assumes "valid_graph corpus" "corpus \<noteq> []" "d < 1 \<or> outdegree corpus cur \<noteq> 0"
  shows "\<exists>nxt \<in> set (keys corpus).
           random_choices u (keys (tabulate (probability corpus d cur) (keys corpus)))
             (dict_values (tabulate (probability corpus d cur) (keys corpus))) = Inr nxt"
proof -
  have pos: "0 < sum_list (map (probability corpus d cur) (keys corpus))"
  proof (cases "outdegree corpus cur = 0")
    case True
    with assms(3) have "d < 1" by simp
    with True show ?thesis by (simp only: probability_total [OF assms(1,2)]) simp
  next
    case False
    then show ?thesis by (simp only: probability_total [OF assms(1,2)]) simp
  qed
  have ne: "keys corpus \<noteq> []" using assms(2) by (simp add: keys_def)
  have len: "length (map (probability corpus d cur) (keys corpus)) = length (keys corpus)"
    by simp
  from random_choices_total [OF ne len pos, of u] show ?thesis
    by (simp only: keys_tabulate dict_values_tabulate)
qed

lemma walk_total:
  assumes "valid_graph corpus" "corpus \<noteq> []" "d < 1 \<or> no_dangling corpus"
  shows "\<exists>cur \<in> set (keys corpus). spec_walk corpus d r0 us i = Inr cur"
proof (induction i)
  case 0
  have "keys corpus \<noteq> []" using assms(2) by (simp add: keys_def)
  then show ?case by (simp add: random_choice_def)
next
  case (Suc i)
  then obtain cur where cur: "cur \<in> set (keys corpus)" "spec_walk corpus d r0 us i = Inr cur"
    by blast
  have "d < 1 \<or> outdegree corpus cur \<noteq> 0"
    using assms(3) outdegree_no_dangling [OF _ cur(1)] by blast
  from draw_total [OF assms(1,2) this, of "us i"] show ?case
    by (simp add: cur(2) transition_model_closed [OF assms(1)])
qed

lemma sample_loop_closed:
  assumes "valid_graph corpus" "corpus \<noteq> []" "d < 1 \<or> no_dangling corpus" "n \<noteq> 0"
    and "spec_walk corpus d r0 us i = Inr cur"
  shows "sample_loop k corpus d n us i cur (tabulate f (keys corpus)) =
           Inr (tabulate (\<lambda>p. f p +
                  (\<Sum>j = i..<i + k. spec_step_probability corpus d r0 us j p * (1 / real_of_int n)))
                (keys corpus))"
  using assms(5)
proof (induction k arbitrary: i cur f)
  case 0
  then show ?case by simp
next
  case (Suc k)
  have dk: "distinct (keys corpus)"
    using assms(1) by (simp add: valid_graph_def dict_repr_def)
  let ?pd = "tabulate (probability corpus d cur) (keys corpus)"
  let ?f = "\<lambda>p. f p + probability corpus d cur p / real_of_int n"
  have tm: "transition_model corpus cur d = Inr ?pd"
    by (rule transition_model_closed [OF assms(1)])
  have credit: "credit_loop (keys corpus) ?pd n (tabulate f (keys corpus)) =
                  Inr (tabulate ?f (keys corpus))"
    using credit_loop_tabulate [OF assms(4) dk dk subset_refl, of "probability corpus d cur" f]
    by (auto intro!: tabulate_cong)
  from walk_total [OF assms(1-3), of r0 us "Suc i"]
  obtain nxt where nxt: "spec_walk corpus d r0 us (Suc i) = Inr nxt" by blast
  then have draw: "random_choices (us i) (keys ?pd) (dict_values ?pd) = Inr nxt"
    using Suc.prems by (simp add: tm)
  have sp: "\<And>p. p \<in> set (keys corpus) \<Longrightarrow>
              spec_step_probability corpus d r0 us i p = probability corpus d cur p"
    using Suc.prems by (simp add: spec_step_probability_def tm entry_def map_of_tabulate)
  have "sample_loop (Suc k) corpus d n us i cur (tabulate f (keys corpus)) =
          sample_loop k corpus d n us (Suc i) nxt (tabulate ?f (keys corpus))"
    using draw by (simp add: tm credit)
  also have "\<dots> = Inr (tabulate (\<lambda>p. ?f p +
                  (\<Sum>j = Suc i..<Suc i + k. spec_step_probability corpus d r0 us j p * (1 / real_of_int n)))
                (keys corpus))"
    by (rule Suc.IH [OF nxt])
  also have "tabulate (\<lambda>p. ?f p +
                  (\<Sum>j = Suc i..<Suc i + k. spec_step_probability corpus d r0 us j p * (1 / real_of_int n)))
                (keys corpus) =
             tabulate (\<lambda>p. f p +
                  (\<Sum>j = i..<i + Suc k. spec_step_probability corpus d r0 us j p * (1 / real_of_int n)))
                (keys corpus)"
    by (intro tabulate_cong) (simp add: sp sum.atLeast_Suc_lessThan)
  finally show ?case .
qed


lemma sample_pagerank_closed:
  assumes "valid_graph corpus" "corpus \<noteq> []" "d < 1 \<or> no_dangling corpus"
  shows "sample_pagerank corpus d n r0 us =
           Inr (tabulate (spec_accumulator corpus d n r0 us) (keys corpus))"
proof -
  have dk: "distinct (keys corpus)"
    using assms(1) by (simp add: valid_graph_def dict_repr_def)
  have zero: "zero_loop (keys corpus) [] = tabulate (\<lambda>_. 0) (keys corpus)"
    using zero_loop_tabulate [OF dk, of "[]"] by simp
  from walk_total [OF assms, of r0 us 0]
  obtain cur where cur: "spec_walk corpus d r0 us 0 = Inr cur" by blast
  then have first: "random_choice r0 (keys corpus) = Inr cur" by simp
  have start: "sample_pagerank corpus d n r0 us =
                 sample_loop (nat (n - 1)) corpus d n us 0 cur (tabulate (\<lambda>_. 0) (keys corpus))"
    by (simp add: sample_pagerank_def zero first)
  show ?thesis
  proof (cases "nat (n - 1) = 0")
    case True
    then show ?thesis
      by (auto simp: start spec_accumulator_def intro!: tabulate_cong)
  next
    case False
    then have n: "n \<noteq> 0" by auto
    have "sample_loop (nat (n - 1)) corpus d n us 0 cur (tabulate (\<lambda>_. 0) (keys corpus)) =
            Inr (tabulate (\<lambda>p. 0 + (\<Sum>j = 0..<0 + nat (n - 1).
                    spec_step_probability corpus d r0 us j p * (1 / real_of_int n))) (keys corpus))"
      by (rule sample_loop_closed [OF assms n cur])
    also have "tabulate (\<lambda>p. 0 + (\<Sum>j = 0..<0 + nat (n - 1).
                    spec_step_probability corpus d r0 us j p * (1 / real_of_int n))) (keys corpus) =
               tabulate (spec_accumulator corpus d n r0 us) (keys corpus)"
      by (intro tabulate_cong) (simp add: spec_accumulator_def atLeast0LessThan)
    finally show ?thesis by (simp add: start)
  qed
qed

lemma step_probability_mass:
  assumes "valid_graph corpus" "corpus \<noteq> []" "no_dangling corpus"
  shows "(\<Sum>q\<leftarrow>keys corpus. spec_step_probability corpus d r0 us i q) = 1"
proof -
  from walk_total [OF assms(1,2), of d r0 us i] assms(3)
  obtain cur where cur: "cur \<in> set (keys corpus)" "spec_walk corpus d r0 us i = Inr cur"
    by blast
  have "(\<Sum>q\<leftarrow>keys corpus. spec_step_probability corpus d r0 us i q) =
        (\<Sum>q\<leftarrow>keys corpus. probability corpus d cur q)"
    by (rule arg_cong [where f = sum_list], rule map_cong [OF refl])
      (simp add: spec_step_probability_def cur(2) transition_model_closed [OF assms(1)]
        entry_def map_of_tabulate)
  also have "\<dots> = 1"
    using outdegree_no_dangling [OF assms(3) cur(1)]
    by (simp add: probability_total [OF assms(1,2)])
  finally show ?thesis .
qed

lemma sample_pagerank_mass:
  assumes "valid_graph corpus" "corpus \<noteq> []" "no_dangling corpus" "1 \<le> n"
  shows "\<exists>r. sample_pagerank corpus d n r0 us = Inr r \<and>
           sum_list (dict_values r) = (real_of_int n - 1) / real_of_int n"
proof -
  let ?k = "nat (n - 1)"
  have "(\<Sum>q\<leftarrow>keys corpus. spec_accumulator corpus d n r0 us q) =
        (\<Sum>i<?k. \<Sum>q\<leftarrow>keys corpus. spec_step_probability corpus d r0 us i q * (1 / real_of_int n))"
    unfolding spec_accumulator_def by (rule sum_list_sum_swap)
  also have "\<dots> = (\<Sum>i<?k. (\<Sum>q\<leftarrow>keys corpus. spec_step_probability corpus d r0 us i q) *
                       (1 / real_of_int n))"
    by (simp add: sum_list_divide)
  also have "\<dots> = real ?k * (1 / real_of_int n)"
    by (simp add: step_probability_mass [OF assms(1-3)])
  also have "\<dots> = (real_of_int n - 1) / real_of_int n"
    using assms(4) by simp
  finally show ?thesis
    using sample_pagerank_closed [OF assms(1,2), of d n r0 us] assms(3)
    by (simp add: dict_values_tabulate)
qed

text \<open>
  Claim C5. The first current page is the page at the index that the uniform choice
  draws among all pages, and every page can be drawn; every step has a current page,
  drawn from the distribution of the step before; and the rank vector returned holds,
  for every page, the sum over the \<open>sample_count - 1\<close> steps of the probability of the
  page under the distribution of the step, times \<open>1 / sample_count\<close>.
\<close>

theorem sample_pagerank_accumulates:
  assumes "valid_graph corpus" "corpus \<noteq> []" "d < 1 \<or> no_dangling corpus"
  shows "spec_walk corpus d r0 us 0 = Inr (keys corpus ! (r0 mod length (keys corpus))) \<and>
         (\<forall>p \<in> set (keys corpus). \<exists>r. spec_walk corpus d r us 0 = Inr p) \<and>
         (\<forall>i. \<exists>cur \<in> set (keys corpus). spec_walk corpus d r0 us i = Inr cur) \<and>
         sample_pagerank corpus d n r0 us =
           Inr (tabulate (spec_accumulator corpus d n r0 us) (keys corpus))"
proof (intro conjI ballI allI)
  have ne: "keys corpus \<noteq> []" using assms(2) by (simp add: keys_def)
  then show "spec_walk corpus d r0 us 0 = Inr (keys corpus ! (r0 mod length (keys corpus)))"
    by (simp add: random_choice_def)
  show "\<exists>cur \<in> set (keys corpus). spec_walk corpus d r0 us i = Inr cur" for i
    by (rule walk_total [OF assms])
  show "sample_pagerank corpus d n r0 us =
          Inr (tabulate (spec_accumulator corpus d n r0 us) (keys corpus))"
    by (rule sample_pagerank_closed [OF assms])
  fix p
  assume "p \<in> set (keys corpus)"
  then obtain r where "r < length (keys corpus)" "keys corpus ! r = p"
    by (auto simp: in_set_conv_nth)
  with ne have "spec_walk corpus d r us 0 = Inr p"
    by (simp add: random_choice_def)
  then show "\<exists>r. spec_walk corpus d r us 0 = Inr p" ..
qed

theorem sample_pagerank_accumulates_witness:
  "valid_graph two_cycle \<and> two_cycle \<noteq> [] \<and> ((85 / 100 :: real) < 1 \<or> no_dangling two_cycle) \<and>
   spec_walk two_cycle (85 / 100) 0 half_draws 0 = Inr ''A'' \<and>
   spec_walk two_cycle (85 / 100) 0 half_draws 1 = Inr ''B'' \<and>
   spec_walk two_cycle (85 / 100) 0 half_draws 2 = Inr ''A'' \<and>
   sample_pagerank two_cycle (85 / 100) 3 0 half_draws = Inr [(''A'', 1 / 3), (''B'', 1 / 3)]"
proof -
  have v: "valid_graph two_cycle"
    by (simp add: valid_graph_def dict_repr_def two_cycle_def keys_def)
  have ne: "two_cycle \<noteq> []" by (simp add: two_cycle_def)
  have d: "(85 / 100 :: real) < 1 \<or> no_dangling two_cycle" by simp
  have w0: "spec_walk two_cycle (85 / 100) 0 half_draws 0 = Inr ''A''"
    by (simp add: two_cycle_def keys_def random_choice_def)
  have w1: "spec_walk two_cycle (85 / 100) 0 half_draws (Suc 0) = Inr ''B''"
    by (simp add: two_cycle_def keys_def transition_model_def py_div_def random_choice_def
        random_choices_def dict_values_def accumulate_def bisect_right.simps half_draws_def)
  have w2: "spec_walk two_cycle (85 / 100) 0 half_draws (Suc (Suc 0)) = Inr ''A''"
    by (simp add: two_cycle_def keys_def transition_model_def py_div_def random_choice_def
        random_choices_def dict_values_def accumulate_def bisect_right.simps half_draws_def)
  have run: "sample_pagerank two_cycle (85 / 100) 3 0 half_draws =
               Inr [(''A'', 1 / 3), (''B'', 1 / 3)]"
    by (simp add: sample_pagerank_def two_cycle_def keys_def transition_model_def py_div_def
        random_choice_def random_choices_def dict_values_def accumulate_def bisect_right.simps
        half_draws_def numeral_2_eq_2)
  show ?thesis
    using v ne d w0 w1 w2 run sample_pagerank_accumulates [OF v ne d, of 0 half_draws 3]
    by (simp add: numeral_2_eq_2)
qed

text \<open>
  Claim C3, at the two-page graph in which each page links to the other, with damping
  0.85. With one sample the loop body never runs and every rank is 0; with two samples
  it runs once and the ranks sum to 1/2.
\<close>

theorem sample_pagerank_sum_short:
  "sample_pagerank two_cycle (85 / 100) 1 r0 us = Inr [(''A'', 0), (''B'', 0)] \<and>
   sample_pagerank two_cycle (85 / 100) 2 0 us = Inr [(''A'', 3 / 80), (''B'', 37 / 80)] \<and>
   sum_list (dict_values [(''A'', 3 / 80 :: real), (''B'', 37 / 80)]) = 1 / 2"
  by (simp add: sample_pagerank_def two_cycle_def keys_def transition_model_def py_div_def
      random_choice_def random_choices_def dict_values_def accumulate_def bisect_right.simps
      Let_def)

text \<open>
  Claim C4, at the graph with the single page A and no link, with damping 0.85: the
  sampling estimator with two samples returns \<open>{A: 0.075}\<close>, the iterative estimator
  \<open>{A: 0.15}\<close>.
\<close>

theorem single_page_ranks:
  "sample_pagerank single_page (85 / 100) 2 r0 us = Inr [(''A'', 3 / 40)] \<and>
   iterate_pagerank single_page (85 / 100) = Some (Inr [(''A'', 3 / 20)])"
  by (simp add: sample_pagerank_def single_page_def keys_def py_div_def random_choice_def
      random_choices_def transition_model_def dict_values_def accumulate_def bisect_right.simps
      iterate_pagerank_def while_loop.simps)

section \<open>Inputs outside the data model\<close>

text \<open>
  Claim C8, as the code has it. On a graph without pages the sampling estimator fails
  before its first step, with the \<^verbatim>\<open>IndexError\<close> of \<^verbatim>\<open>random.choice\<close> on an empty list,
  whatever the damping factor, the sample count and the random source are; the iterative
  estimator does not fail: it returns the empty rank vector.
\<close>

theorem empty_graph_behaviour:
  "sample_pagerank [] d n r0 us = Inl IndexError \<and> iterate_pagerank [] d = Some (Inr [])"
  by (simp add: sample_pagerank_def random_choice_def iterate_pagerank_def while_loop.simps
      keys_def)

theorem empty_graph_counterexample:
  "iterate_pagerank [] (85 / 100) = Some (Inr [])"
  by (simp add: iterate_pagerank_def while_loop.simps keys_def)









end
